theory Spec2Isabelle
  imports Main "HOL-Library.Finite_Map"
begin

section \<open>The LRU cache of \<open>include/DataStore.h\<close>\<close>

text \<open>
  \<open>DataStore\<close> keeps a \<open>std::list\<close> of key/value pairs in recency order, an
  \<open>unordered_map\<close> from keys to iterators into that list, an \<open>unordered_map\<close> of
  modification flags, the capacity and a sqlite handle.  The embedding follows the
  class member by member.
\<close>

subsection \<open>The sqlite handle\<close>

text \<open>
  The class builds three texts for the table
  \<open>data (key CHAR PRIMARY KEY, value TEXT)\<close> and hands their \<open>c_str()\<close> to sqlite: an
  \<open>INSERT OR REPLACE\<close> of one row (\<open>writeToDB\<close>), an \<open>INSERT OR REPLACE\<close> of several
  rows (\<open>purgeToStorage\<close>) and a \<open>SELECT value ... WHERE key = 'k' LIMIT 1\<close>
  (\<open>readFromDB\<close>).  Keys and values are pasted into the text as they are, between
  apostrophes, and \<open>c_str()\<close> ends at the first NUL character.

  sqlite is an external library.  Its handle is modelled by
  \<^item> \<open>db_data\<close>, the content of the table;
  \<^item> \<open>db_faults\<close>, the outcomes of the sqlite calls still to come (\<open>True\<close>: the call
    reports an error and changes nothing; a call made when the list is exhausted does
    not);
  \<^item> \<open>db_foreign\<close>, what sqlite makes of the texts still to come that are not one of
    the statements below: whether it accepts the text, the rows it yields if the text
    is prepared and stepped, and the table it leaves if the text is executed (when
    the list is exhausted such a text is refused and changes nothing).
  The model knows the meaning of two shapes of text only: \<open>select_statement k\<close> and
  \<open>insert_statement rows\<close> where no key and no value holds an apostrophe.  A key or a
  value with an apostrophe or a NUL makes the class build another text; that text is
  still one of the two shapes when the pasted apostrophes happen to close and open
  literals the way the shape wants, and it then means what it says: other rows than the
  class streamed.  Every other text has the meaning \<open>db_foreign\<close> gives it.

  \<open>db_journal\<close> is no part of sqlite: it records the pairs the class streams into
  each \<open>INSERT OR REPLACE\<close> text it hands to \<open>sqlite3_exec\<close>, in call order.
\<close>

type_synonym key_val_pair = "string \<times> string"

datatype sqlite_status = SQLITE_OK | SQLITE_ERROR | SQLITE_ROW | SQLITE_DONE

record sqlite3 =
  db_data :: "(string, string) fmap"
  db_faults :: "bool list"
  db_journal :: "key_val_pair list list"
  db_foreign :: "(bool \<times> string list \<times> key_val_pair list) list"

definition next_fault :: "sqlite3 \<Rightarrow> bool \<times> sqlite3" where
  "next_fault db =
     (case db_faults db of
        [] \<Rightarrow> (False, db)
      | f # fs \<Rightarrow> (f, db\<lparr>db_faults := fs\<rparr>))"

definition next_foreign :: "sqlite3 \<Rightarrow> (bool \<times> string list \<times> key_val_pair list) option \<times> sqlite3" where
  "next_foreign db =
     (case db_foreign db of
        [] \<Rightarrow> (None, db)
      | x # xs \<Rightarrow> (Some x, db\<lparr>db_foreign := xs\<rparr>))"

abbreviation apos :: char where
  "apos \<equiv> CHR 0x27"

text \<open>\<open>std::string::c_str()\<close> read as a C string, and \<open>std::string((char *) p)\<close>: the
  characters before the first NUL.\<close>

definition c_str :: "string \<Rightarrow> string" where
  "c_str s = takeWhile (\<lambda>c. c \<noteq> CHR 0x00) s"


text \<open>The two shapes of text the model knows the meaning of.\<close>

definition select_statement :: "string \<Rightarrow> string" where
  "select_statement key =
     ''SELECT value FROM data WHERE key = '' @ apos # key @ apos # '' LIMIT 1;''"

definition row_text :: "key_val_pair \<Rightarrow> string" where
  "row_text kv = ''( '' @ apos # fst kv @ apos # '', '' @ apos # snd kv @ apos # '' )''"

fun rows_body :: "key_val_pair list \<Rightarrow> string" where
  "rows_body [] = '';''"
| "rows_body [kv] = row_text kv @ '';''"
| "rows_body (kv # kvs) = row_text kv @ '','' @ rows_body kvs"

definition insert_statement :: "key_val_pair list \<Rightarrow> string" where
  "insert_statement rows =
     ''INSERT OR REPLACE INTO data (key, value) VALUES '' @ rows_body rows"

text \<open>Reading a text: \<open>segments\<close> cuts it at its apostrophes, so that the literals of
  a statement of the two shapes are the segments at odd positions; the text is the
  statement of these literals exactly when printing them gives the text back.\<close>

fun segments :: "string \<Rightarrow> string list" where
  "segments [] = [[]]"
| "segments (c # cs) =
     (if c = apos then [] # segments cs
      else (case segments cs of [] \<Rightarrow> [[c]] | s # ss \<Rightarrow> (c # s) # ss))"

fun odd_pairs :: "string list \<Rightarrow> key_val_pair list" where
  "odd_pairs (a # k # b # v # rest) = (k, v) # odd_pairs rest"
| "odd_pairs _ = []"

definition decode_select :: "string \<Rightarrow> string option" where
  "decode_select text =
     (case segments text of
        a # k # _ \<Rightarrow> if text = select_statement k then Some k else None
      | _ \<Rightarrow> None)"

definition decode_insert :: "string \<Rightarrow> key_val_pair list option" where
  "decode_insert text =
     (let rows = odd_pairs (segments text)
      in if rows \<noteq> [] \<and> text = insert_statement rows then Some rows else None)"

definition upsert_rows :: "key_val_pair list \<Rightarrow> (string, string) fmap \<Rightarrow> (string, string) fmap" where
  "upsert_rows rows tbl = fold (\<lambda>kv m. fmupd (fst kv) (snd kv) m) rows tbl"

text \<open>\<open>sqlite3_exec\<close> on a text.\<close>

definition sqlite3_exec :: "string \<Rightarrow> sqlite3 \<Rightarrow> sqlite_status \<times> sqlite3" where
  "sqlite3_exec text db =
     (let (fault, db1) = next_fault db
      in if fault then (SQLITE_ERROR, db1)
         else (case decode_insert text of
                 Some rows \<Rightarrow> (SQLITE_OK, db1\<lparr>db_data := upsert_rows rows (db_data db1)\<rparr>)
               | None \<Rightarrow>
                  (case next_foreign db1 of
                     (None, db2) \<Rightarrow> (SQLITE_ERROR, db2)
                   | (Some (ok, rows, tbl), db2) \<Rightarrow>
                       (if ok then SQLITE_OK else SQLITE_ERROR,
                        db2\<lparr>db_data := fmap_of_list tbl\<rparr>))))"

text \<open>\<open>sqlite3_prepare_v2\<close> on a text: the status, and the rows the statement will
  yield (at most one for a \<open>select_statement\<close>: \<open>key\<close> is the primary key).  It
  compiles the first statement of the text only, which begins with \<open>SELECT\<close>, so the
  table stays as it is.\<close>

definition sqlite3_prepare_v2 :: "string \<Rightarrow> sqlite3 \<Rightarrow> sqlite_status \<times> string list \<times> sqlite3" where
  "sqlite3_prepare_v2 text db =
     (let (fault, db1) = next_fault db
      in if fault then (SQLITE_ERROR, [], db1)
         else (case decode_select text of
                 Some key \<Rightarrow>
                   (SQLITE_OK,
                    (case fmlookup (db_data db1) key of None \<Rightarrow> [] | Some v \<Rightarrow> [v]),
                    db1)
               | None \<Rightarrow>
                  (case next_foreign db1 of
                     (None, db2) \<Rightarrow> (SQLITE_ERROR, [], db2)
                   | (Some (ok, rows, tbl), db2) \<Rightarrow>
                       (if ok then (SQLITE_OK, rows, db2) else (SQLITE_ERROR, [], db2)))))"

text \<open>The loop
  \<open>while ((status = sqlite3_step(stmt)) == SQLITE_ROW) value = std::string((char *) sqlite3_column_text(stmt, 0))\<close>:
  it returns the status that ended it and the last value assigned.\<close>

fun step_loop :: "string list \<Rightarrow> string \<Rightarrow> sqlite3 \<Rightarrow> sqlite_status \<times> string \<times> sqlite3" where
  "step_loop [] val db =
     (let (fault, db1) = next_fault db
      in (if fault then SQLITE_ERROR else SQLITE_DONE, val, db1))"
| "step_loop (r # rs) val db =
     (let (fault, db1) = next_fault db
      in if fault then (SQLITE_ERROR, val, db1) else step_loop rs (c_str r) db1)"

definition journal_add :: "key_val_pair list \<Rightarrow> sqlite3 \<Rightarrow> sqlite3" where
  "journal_add rows db = db\<lparr>db_journal := db_journal db @ [rows]\<rparr>"

definition writeToDB :: "string \<Rightarrow> string \<Rightarrow> sqlite3 \<Rightarrow> bool \<times> sqlite3" where
  "writeToDB key val db =
     (let ss = ''INSERT OR REPLACE INTO data (key, value) VALUES ( '' @ apos # key @
                 apos # '', '' @ apos # val @ apos # '' );'';
          (status, db1) = sqlite3_exec (c_str ss) (journal_add [(key, val)] db)
      in if status \<noteq> SQLITE_OK then (False, db1) else (True, db1))"

text \<open>\<open>readFromDB\<close> takes \<open>value\<close> by reference: the model takes its content on
  entry and returns its content on exit.\<close>

definition readFromDB :: "string \<Rightarrow> string \<Rightarrow> sqlite3 \<Rightarrow> bool \<times> string \<times> sqlite3" where
  "readFromDB key val db =
     (let ss = ''SELECT value FROM data WHERE key = '' @ apos # key @ apos # '' LIMIT 1;'';
          (status, rows, db1) = sqlite3_prepare_v2 (c_str ss) db
      in if status \<noteq> SQLITE_OK then (False, val, db1)
         else (let (status2, val2, db2) = step_loop rows val db1
               in if status2 \<noteq> SQLITE_DONE then (False, val2, db2)
                  else (True, val2, db2)))"

subsection \<open>The recency list\<close>

text \<open>
  A \<open>std::list\<close> iterator is the address of a node and stays valid while the node
  lives, so the list is a sequence of nodes, each an address with its pair.
  \<open>push_front\<close> allocates an address that no node of the list has.  An operation
  applied to an iterator that designates no node of the list has undefined behaviour in
  C++: the model returns \<open>None\<close> there.
\<close>

type_synonym list_itr = nat
type_synonym cache_list = "(list_itr \<times> key_val_pair) list"

definition fresh_itr :: "cache_list \<Rightarrow> list_itr" where
  "fresh_itr l = Suc (foldr max (map fst l) 0)"

definition push_front :: "key_val_pair \<Rightarrow> cache_list \<Rightarrow> cache_list" where
  "push_front kv l = (fresh_itr l, kv) # l"

definition list_erase :: "cache_list \<Rightarrow> list_itr \<Rightarrow> cache_list option" where
  "list_erase l it =
     (if it \<in> fst ` set l then Some (filter (\<lambda>n. fst n \<noteq> it) l) else None)"

text \<open>\<open>l.splice(l.begin(), l, it)\<close>: the node moves to the front and keeps its
  address.\<close>

definition splice_front :: "cache_list \<Rightarrow> list_itr \<Rightarrow> cache_list option" where
  "splice_front l it =
     (case map_of l it of
        None \<Rightarrow> None
      | Some kv \<Rightarrow> Some ((it, kv) # filter (\<lambda>n. fst n \<noteq> it) l))"

definition deref :: "cache_list \<Rightarrow> list_itr \<Rightarrow> key_val_pair option" where
  "deref l it = map_of l it"

definition list_begin :: "cache_list \<Rightarrow> list_itr option" where
  "list_begin l = (case l of [] \<Rightarrow> None | n # _ \<Rightarrow> Some (fst n))"

subsection \<open>The class\<close>

text \<open>\<open>m_max_cache_size\<close> is a \<open>size_t\<close> that is only ever compared with the size
  of the index, so it is a natural number here.\<close>

record DataStore =
  m_cache_list :: cache_list
  m_cache_map :: "(string, list_itr) fmap"
  m_modification_map :: "(string, bool) fmap"
  m_max_cache_size :: nat
  m_db :: sqlite3

datatype runtime_error = Failed_to_open_database | SQL_error_ocurred

text \<open>The constructor: \<open>sqlite3_open\<close>, then \<open>CREATE TABLE IF NOT EXISTS\<close>, each
  throwing on a bad status.  The table may hold rows of an earlier run.\<close>

definition DataStore_ctor :: "nat \<Rightarrow> sqlite3 \<Rightarrow> runtime_error + DataStore" where
  "DataStore_ctor max_cache_size db =
     (let (fault1, db1) = next_fault db
      in if fault1 then Inl Failed_to_open_database
         else (let (fault2, db2) = next_fault db1
               in if fault2 then Inl SQL_error_ocurred
                  else Inr \<lparr>m_cache_list = [], m_cache_map = fmempty,
                            m_modification_map = fmempty,
                            m_max_cache_size = max_cache_size, m_db = db2\<rparr>))"

definition isModified :: "string \<Rightarrow> DataStore \<Rightarrow> bool" where
  "isModified key ds =
     (case fmlookup (m_modification_map ds) key of
        Some b \<Rightarrow> b
      | None \<Rightarrow> False)"

definition size_cache :: "DataStore \<Rightarrow> nat" where
  "size_cache ds = fcard (fmdom (m_cache_map ds))"

definition isInCache :: "string \<Rightarrow> DataStore \<Rightarrow> bool" where
  "isInCache key ds = (fmlookup (m_cache_map ds) key \<noteq> None)"

text \<open>The eviction block of \<open>put\<close> (lines 92 to 110), in the order of the source:
  both maps forget the key of the last node, the node is popped, and only then is
  \<open>isModified\<close> asked about the key.\<close>

definition evict_oldest :: "DataStore \<Rightarrow> DataStore option" where
  "evict_oldest ds =
     (if m_cache_list ds = [] then None
      else
        (let end_key = fst (snd (last (m_cache_list ds)));
             ds1 = ds\<lparr>m_cache_map := fmdrop end_key (m_cache_map ds)\<rparr>;
             ds2 = ds1\<lparr>m_modification_map := fmdrop end_key (m_modification_map ds1)\<rparr>;
             lastElem = snd (last (m_cache_list ds2));
             ds3 = ds2\<lparr>m_cache_list := butlast (m_cache_list ds2)\<rparr>
         in if isModified (fst lastElem) ds3
            then Some (ds3\<lparr>m_db := snd (writeToDB (fst lastElem) (snd lastElem) (m_db ds3))\<rparr>)
            else Some ds3))"

definition put :: "string \<Rightarrow> string \<Rightarrow> DataStore \<Rightarrow> DataStore option" where
  "put key val ds =
     (let mapItr = fmlookup (m_cache_map ds) key;
          l1 = push_front (key, val) (m_cache_list ds)
      in case (case mapItr of None \<Rightarrow> Some l1 | Some it \<Rightarrow> list_erase l1 it) of
           None \<Rightarrow> None
         | Some l2 \<Rightarrow>
            (case list_begin l2 of
               None \<Rightarrow> None
             | Some b \<Rightarrow>
                (let ds1 = ds\<lparr>m_cache_list := l2,
                              m_cache_map := fmupd key b (m_cache_map ds),
                              m_modification_map := fmupd key True (m_modification_map ds)\<rparr>
                 in if size_cache ds1 > m_max_cache_size ds1
                    then evict_oldest ds1
                    else Some ds1)))"

definition get :: "string \<Rightarrow> DataStore \<Rightarrow> (string \<times> DataStore) option" where
  "get key ds =
     (case fmlookup (m_cache_map ds) key of
        Some it \<Rightarrow>
          (case splice_front (m_cache_list ds) it of
             None \<Rightarrow> None
           | Some l1 \<Rightarrow>
              (case deref l1 it of
                 None \<Rightarrow> None
               | Some kv \<Rightarrow> Some (snd kv, ds\<lparr>m_cache_list := l1\<rparr>)))
      | None \<Rightarrow>
          (let (success, val, db1) = readFromDB key [] (m_db ds);
               ds0 = ds\<lparr>m_db := db1\<rparr>
           in if success
              then (case put key val ds0 of
                      None \<Rightarrow> None
                    | Some ds1 \<Rightarrow>
                       (let ds2 = ds1\<lparr>m_modification_map :=
                                        fmupd key False (m_modification_map ds1)\<rparr>
                        in case fmlookup (m_cache_map ds2) key of
                             Some it \<Rightarrow>
                               (case deref (m_cache_list ds2) it of
                                  None \<Rightarrow> None
                                | Some kv \<Rightarrow> Some (snd kv, ds2))
                           | None \<Rightarrow> Some ([], ds2)))
              else Some ([], ds0)))"

text \<open>The loop of \<open>purgeToStorage\<close> over the list, front to back, carrying the text
  streamed into \<open>ss\<close> so far, \<open>dataAdded\<close>, and the pairs streamed, which go to the
  journal.  After the loop \<open>seekp(-1, end)\<close> and \<open>ss << ";"\<close> overwrite the last
  character of the text.\<close>

fun purge_loop :: "cache_list \<Rightarrow> DataStore \<Rightarrow> string \<times> bool \<times> key_val_pair list \<Rightarrow> string \<times> bool \<times> key_val_pair list" where
  "purge_loop [] ds acc = acc"
| "purge_loop (n # ns) ds (ss, dataAdded, streamed) =
     (if isModified (fst (snd n)) ds
      then purge_loop ns ds
             (ss @ ''( '' @ apos # fst (snd n) @ apos # '', '' @ apos # snd (snd n) @
                 apos # '' ),'',
              True, streamed @ [snd n])
      else purge_loop ns ds (ss, dataAdded, streamed))"

definition purgeToStorage :: "DataStore \<Rightarrow> bool \<times> DataStore" where
  "purgeToStorage ds =
     (let (ss, dataAdded, streamed) =
            purge_loop (m_cache_list ds) ds
              (''INSERT OR REPLACE INTO data (key, value) VALUES '', False, []);
          ss2 = butlast ss @ '';''
      in if dataAdded
         then (let (status, db1) = sqlite3_exec (c_str ss2) (journal_add streamed (m_db ds))
               in if status \<noteq> SQLITE_OK then (False, ds\<lparr>m_db := db1\<rparr>)
                  else (True, ds\<lparr>m_db := db1\<rparr>))
         else (True, ds))"

text \<open>The destructor; what is left of the object is the database it closes.\<close>

definition DataStore_dtor :: "DataStore \<Rightarrow> sqlite3" where
  "DataStore_dtor ds =
     m_db (if m_cache_list ds \<noteq> [] then snd (purgeToStorage ds) else ds)"

subsection \<open>Sequences of calls\<close>

datatype call = Put string string | Get string | IsInCache string | Size

fun do_call :: "call \<Rightarrow> DataStore \<Rightarrow> DataStore option" where
  "do_call (Put k v) ds = put k v ds"
| "do_call (Get k) ds = map_option snd (get k ds)"
| "do_call (IsInCache k) ds = Some ds"
| "do_call Size ds = Some ds"

fun run :: "call list \<Rightarrow> DataStore \<Rightarrow> DataStore option" where
  "run [] ds = Some ds"
| "run (c # cs) ds = (case do_call c ds of None \<Rightarrow> None | Some ds1 \<Rightarrow> run cs ds1)"

text \<open>The keys, and the pairs, of the recency list, most recently used first.\<close>

definition list_keys :: "DataStore \<Rightarrow> string list" where
  "list_keys ds = map (\<lambda>n. fst (snd n)) (m_cache_list ds)"

definition entries :: "DataStore \<Rightarrow> key_val_pair list" where
  "entries ds = map snd (m_cache_list ds)"

subsection \<open>The invariant and the stages of \<open>put\<close> and \<open>get\<close>\<close>

text \<open>
  The invariant of the list and its index: the nodes have distinct addresses, the keys of
  the list are distinct, and the index maps a key to an iterator exactly when that
  iterator designates a node of the list carrying the key.  \<open>good\<close> adds the capacity
  bound.  \<open>inserted\<close>, \<open>evicted\<close> and \<open>moved_to_front\<close> name the states after the
  front insertion of \<open>put\<close>, after its eviction block and after the splice of \<open>get\<close>.
\<close>

definition cache_inv :: "DataStore \<Rightarrow> bool" where
  "cache_inv ds \<longleftrightarrow>
     distinct (map fst (m_cache_list ds)) \<and>
     distinct (list_keys ds) \<and>
     (\<forall>k it. fmlookup (m_cache_map ds) k = Some it \<longleftrightarrow>
        (\<exists>v. (it, k, v) \<in> set (m_cache_list ds)))"

definition inserted :: "string \<Rightarrow> string \<Rightarrow> DataStore \<Rightarrow> DataStore" where
  "inserted k v ds =
     ds\<lparr>m_cache_list := (fresh_itr (m_cache_list ds), k, v) #
                              filter (\<lambda>n. fst (snd n) \<noteq> k) (m_cache_list ds),
        m_cache_map := fmupd k (fresh_itr (m_cache_list ds)) (m_cache_map ds),
        m_modification_map := fmupd k True (m_modification_map ds)\<rparr>"

definition evicted :: "DataStore \<Rightarrow> DataStore" where
  "evicted ds =
     ds\<lparr>m_cache_list := butlast (m_cache_list ds),
        m_cache_map := fmdrop (fst (snd (last (m_cache_list ds)))) (m_cache_map ds),
        m_modification_map := fmdrop (fst (snd (last (m_cache_list ds)))) (m_modification_map ds)\<rparr>"

definition moved_to_front :: "list_itr \<Rightarrow> key_val_pair \<Rightarrow> DataStore \<Rightarrow> DataStore" where
  "moved_to_front it kv ds =
     ds\<lparr>m_cache_list := (it, kv) # filter (\<lambda>n. fst (snd n) \<noteq> fst kv) (m_cache_list ds)\<rparr>"

definition good :: "DataStore \<Rightarrow> bool" where
  "good ds \<longleftrightarrow> cache_inv ds \<and> size_cache ds \<le> m_max_cache_size ds"

subsection \<open>The recency order of the specification\<close>

text \<open>
  The order the specification prescribes once key \<open>k\<close> has been inserted under
  capacity \<open>cap\<close>: \<open>k\<close> goes to the front, leaving its old position if it had one,
  and the least recently used key, the last one, is dropped when the keys then exceed
  the capacity.
\<close>

definition lru_order :: "nat \<Rightarrow> string \<Rightarrow> string list \<Rightarrow> string list" where
  "lru_order cap k ks =
     (if cap < length (k # removeAll k ks)
      then butlast (k # removeAll k ks)
      else k # removeAll k ks)"

subsection \<open>The dirty resident entries\<close>

text \<open>The pairs of the recency list whose key is marked modified, front to back: the
  entries the specification wants written at teardown.\<close>

definition dirty_entries :: "DataStore \<Rightarrow> key_val_pair list" where
  "dirty_entries ds = filter (\<lambda>kv. isModified (fst kv) ds) (entries ds)"

subsection \<open>Concrete inputs\<close>

text \<open>A database with the given rows in its table, no error to come, an empty
  journal and nothing said about other texts; and the object a successful construction
  yields.\<close>

abbreviation fresh_db :: "key_val_pair list \<Rightarrow> sqlite3" where
  "fresh_db rows \<equiv>
     \<lparr>db_data = fmap_of_list rows, db_faults = [], db_journal = [], db_foreign = []\<rparr>"

abbreviation empty_cache :: "nat \<Rightarrow> sqlite3 \<Rightarrow> DataStore" where
  "empty_cache cap db \<equiv>
     \<lparr>m_cache_list = [], m_cache_map = fmempty, m_modification_map = fmempty,
      m_max_cache_size = cap, m_db = db\<rparr>"

section \<open>Properties\<close>

subsection \<open>Auxiliary facts\<close>

lemma foldr_max_ge: "x \<in> set xs \<Longrightarrow> x \<le> foldr max xs (0::nat)"
  by (induction xs) (auto simp: max_def)

lemma fresh_itr_notin: "fresh_itr l \<notin> fst ` set l"
proof
  assume "fresh_itr l \<in> fst ` set l"
  then have "fresh_itr l \<in> set (map fst l)" by simp
  then have "fresh_itr l \<le> foldr max (map fst l) 0" by (rule foldr_max_ge)
  then show False by (simp add: fresh_itr_def)
qed

lemma evict_oldest_db: "evict_oldest ds = Some ds' \<Longrightarrow> m_db ds' = m_db ds"
  by (auto simp: evict_oldest_def Let_def isModified_def split: if_splits)

lemma put_db: "put k v ds = Some ds' \<Longrightarrow> m_db ds' = m_db ds"
  by (auto simp: put_def Let_def split: option.splits if_splits dest!: evict_oldest_db)

lemma evict_oldest_cap: "evict_oldest ds = Some ds' \<Longrightarrow> m_max_cache_size ds' = m_max_cache_size ds"
  by (auto simp: evict_oldest_def Let_def isModified_def split: if_splits)

lemma put_cap: "put k v ds = Some ds' \<Longrightarrow> m_max_cache_size ds' = m_max_cache_size ds"
  by (auto simp: put_def Let_def split: option.splits if_splits dest!: evict_oldest_cap)

lemma inv_lookup_Some:
  assumes "cache_inv ds" "fmlookup (m_cache_map ds) k = Some it"
  shows "filter (\<lambda>n. fst n \<noteq> it) (m_cache_list ds) = filter (\<lambda>n. fst (snd n) \<noteq> k) (m_cache_list ds)"
    and "it \<in> fst ` set (m_cache_list ds)"
proof -
  from assms obtain v where v: "(it, k, v) \<in> set (m_cache_list ds)"
    by (auto simp: cache_inv_def)
  then show "it \<in> fst ` set (m_cache_list ds)" by force
  have d: "distinct (map fst (m_cache_list ds))" using assms by (simp add: cache_inv_def)
  have "fst n = it \<longleftrightarrow> fst (snd n) = k" if n: "n \<in> set (m_cache_list ds)" for n
  proof
    assume "fst n = it"
    with n v d have "n = (it, k, v)"
      by (metis eq_key_imp_eq_value prod.collapse)
    then show "fst (snd n) = k" by simp
  next
    assume "fst (snd n) = k"
    then have "(fst n, k, snd (snd n)) \<in> set (m_cache_list ds)" using n by (metis prod.collapse)
    then have "fmlookup (m_cache_map ds) k = Some (fst n)" using assms(1) by (auto simp: cache_inv_def)
    then show "fst n = it" using assms(2) by simp
  qed
  then show "filter (\<lambda>n. fst n \<noteq> it) (m_cache_list ds) = filter (\<lambda>n. fst (snd n) \<noteq> k) (m_cache_list ds)"
    by (intro filter_cong refl) simp
qed

lemma inv_lookup_None:
  assumes "cache_inv ds" "fmlookup (m_cache_map ds) k = None"
  shows "filter (\<lambda>n. fst (snd n) \<noteq> k) (m_cache_list ds) = m_cache_list ds"
proof -
  have "fst (snd n) \<noteq> k" if n: "n \<in> set (m_cache_list ds)" for n
  proof
    assume "fst (snd n) = k"
    then have "(fst n, k, snd (snd n)) \<in> set (m_cache_list ds)" using n by (metis prod.collapse)
    then have "fmlookup (m_cache_map ds) k = Some (fst n)" using assms(1) by (auto simp: cache_inv_def)
    then show False using assms(2) by simp
  qed
  then show ?thesis by (simp add: filter_id_conv)
qed

lemma inv_dom: "cache_inv ds \<Longrightarrow> fset (fmdom (m_cache_map ds)) = set (list_keys ds)"
proof -
  assume a: "cache_inv ds"
  have "k \<in> fset (fmdom (m_cache_map ds)) \<longleftrightarrow> k \<in> set (list_keys ds)" for k
  proof -
    have "k \<in> fset (fmdom (m_cache_map ds)) \<longleftrightarrow> (\<exists>it. fmlookup (m_cache_map ds) k = Some it)"
      by (simp add: fmlookup_dom_iff)
    also have "\<dots> \<longleftrightarrow> (\<exists>it v. (it, k, v) \<in> set (m_cache_list ds))"
      using a by (simp add: cache_inv_def)
    also have "\<dots> \<longleftrightarrow> k \<in> set (list_keys ds)"
      by (force simp: list_keys_def)
    finally show ?thesis .
  qed
  then show ?thesis by blast
qed

lemma inv_size: "cache_inv ds \<Longrightarrow> size_cache ds = length (m_cache_list ds)"
proof -
  assume a: "cache_inv ds"
  have "size_cache ds = card (fset (fmdom (m_cache_map ds)))"
    by (simp add: size_cache_def fcard.rep_eq)
  also have "\<dots> = card (set (list_keys ds))" using a by (simp add: inv_dom)
  also have "\<dots> = length (list_keys ds)" using a by (simp add: cache_inv_def distinct_card)
  finally show ?thesis by (simp add: list_keys_def)
qed

lemma evict_oldest_eq:
  "m_cache_list ds \<noteq> [] \<Longrightarrow> evict_oldest ds = Some (evicted ds)"
  by (simp add: evict_oldest_def evicted_def Let_def isModified_def)

lemma put_eq:
  assumes "cache_inv ds"
  shows "put k v ds =
           Some (if size_cache (inserted k v ds) > m_max_cache_size ds
                 then evicted (inserted k v ds) else inserted k v ds)"
proof (cases "fmlookup (m_cache_map ds) k")
  case None
  with assms have "filter (\<lambda>n. fst (snd n) \<noteq> k) (m_cache_list ds) = m_cache_list ds"
    by (rule inv_lookup_None)
  with None show ?thesis
    by (simp add: put_def push_front_def list_begin_def inserted_def Let_def evict_oldest_eq)
next
  case (Some it)
  note f = inv_lookup_Some [OF assms Some]
  have ne: "it \<noteq> fresh_itr (m_cache_list ds)"
    using f(2) fresh_itr_notin [of "m_cache_list ds"] by blast
  with Some f show ?thesis
    by (simp add: put_def push_front_def list_begin_def list_erase_def inserted_def Let_def
        evict_oldest_eq)
qed

lemma inserted_inv:
  assumes "cache_inv ds"
  shows "cache_inv (inserted k v ds)"
proof -
  let ?l = "m_cache_list ds"
  have d1: "distinct (map fst ?l)" and d2: "distinct (map (\<lambda>n. fst (snd n)) ?l)"
    and m: "\<And>k it. fmlookup (m_cache_map ds) k = Some it \<longleftrightarrow> (\<exists>v. (it, k, v) \<in> set ?l)"
    using assms by (simp_all add: cache_inv_def list_keys_def)
  have fr: "fresh_itr ?l \<notin> fst ` set ?l" by (rule fresh_itr_notin)
  have a: "distinct (map fst (m_cache_list (inserted k v ds)))"
    using d1 fr by (auto simp: inserted_def distinct_map_filter)
  have b: "distinct (list_keys (inserted k v ds))"
    using d2 by (auto simp: inserted_def list_keys_def distinct_map_filter)
  have c: "fmlookup (m_cache_map (inserted k v ds)) k' = Some it' \<longleftrightarrow>
           (\<exists>v'. (it', k', v') \<in> set (m_cache_list (inserted k v ds)))" for k' it'
    using m [of k' it'] by (auto simp: inserted_def)
  from a b c show ?thesis unfolding cache_inv_def by blast
qed

lemma evicted_inv:
  assumes "cache_inv ds" "m_cache_list ds \<noteq> []"
  shows "cache_inv (evicted ds)"
proof -
  let ?l = "m_cache_list ds"
  obtain xs n where l: "?l = xs @ [n]"
    using assms(2) by (metis append_butlast_last_id)
  have d1: "distinct (map fst ?l)" and d2: "distinct (map (\<lambda>n. fst (snd n)) ?l)"
    and m: "\<And>k it. fmlookup (m_cache_map ds) k = Some it \<longleftrightarrow> (\<exists>v. (it, k, v) \<in> set ?l)"
    using assms by (simp_all add: cache_inv_def list_keys_def)
  have a: "distinct (map fst (m_cache_list (evicted ds)))"
    using d1 l by (simp add: evicted_def)
  have b: "distinct (list_keys (evicted ds))"
    using d2 l by (simp add: evicted_def list_keys_def)
  have nk: "fst (snd n) \<notin> (\<lambda>n. fst (snd n)) ` set xs" using d2 l by simp
  have c: "fmlookup (m_cache_map (evicted ds)) k' = Some it' \<longleftrightarrow>
           (\<exists>v'. (it', k', v') \<in> set (m_cache_list (evicted ds)))" for k' it'
  proof (cases "k' = fst (snd n)")
    case True
    have "\<not> (\<exists>v'. (it', k', v') \<in> set xs)"
    proof
      assume "\<exists>v'. (it', k', v') \<in> set xs"
      then obtain v' where "(it', k', v') \<in> set xs" ..
      then have "(\<lambda>n. fst (snd n)) (it', k', v') \<in> (\<lambda>n. fst (snd n)) ` set xs"
        by (rule imageI)
      with True nk show False by simp
    qed
    with True l show ?thesis by (simp add: evicted_def)
  next
    case False
    then have "(\<exists>v'. (it', k', v') \<in> set ?l) \<longleftrightarrow> (\<exists>v'. (it', k', v') \<in> set xs)"
      using l by auto
    with False l m [of k' it'] show ?thesis by (simp add: evicted_def)
  qed
  from a b c show ?thesis unfolding cache_inv_def by blast
qed

lemma put_inv:
  assumes "cache_inv ds"
  shows "\<exists>ds'. put k v ds = Some ds' \<and> cache_inv ds'"
proof -
  have i: "cache_inv (inserted k v ds)" using assms by (rule inserted_inv)
  have "m_cache_list (inserted k v ds) \<noteq> []" by (simp add: inserted_def)
  with i have "cache_inv (evicted (inserted k v ds))" by (rule evicted_inv)
  with i show ?thesis by (simp add: put_eq [OF assms])
qed

lemma cache_inv_db [simp]: "cache_inv (ds\<lparr>m_db := db\<rparr>) = cache_inv ds"
  by (simp add: cache_inv_def list_keys_def)

lemma cache_inv_modification [simp]: "cache_inv (ds\<lparr>m_modification_map := mm\<rparr>) = cache_inv ds"
  by (simp add: cache_inv_def list_keys_def)

lemma inv_node:
  assumes "cache_inv ds" "fmlookup (m_cache_map ds) k = Some it"
  shows "\<exists>v. map_of (m_cache_list ds) it = Some (k, v)"
proof -
  from assms obtain v where "(it, k, v) \<in> set (m_cache_list ds)"
    by (auto simp: cache_inv_def)
  moreover have "distinct (map fst (m_cache_list ds))" using assms by (simp add: cache_inv_def)
  ultimately have "map_of (m_cache_list ds) it = Some (k, v)" by simp
  then show ?thesis ..
qed

lemma get_hit:
  assumes "cache_inv ds" "fmlookup (m_cache_map ds) k = Some it"
  shows "\<exists>v. map_of (m_cache_list ds) it = Some (k, v) \<and>
             get k ds = Some (v, moved_to_front it (k, v) ds)"
proof -
  from inv_node [OF assms] obtain v where v: "map_of (m_cache_list ds) it = Some (k, v)" ..
  have "filter (\<lambda>n. fst n \<noteq> it) (m_cache_list ds) = filter (\<lambda>n. fst (snd n) \<noteq> k) (m_cache_list ds)"
    using assms by (rule inv_lookup_Some)
  with v assms(2) have "get k ds = Some (v, moved_to_front it (k, v) ds)"
    by (simp add: get_def splice_front_def deref_def moved_to_front_def)
  with v show ?thesis by blast
qed

lemma moved_to_front_inv:
  assumes "cache_inv ds" "fmlookup (m_cache_map ds) k = Some it"
    "map_of (m_cache_list ds) it = Some (k, v)"
  shows "cache_inv (moved_to_front it (k, v) ds)"
proof -
  let ?l = "m_cache_list ds"
  have d1: "distinct (map fst ?l)" and d2: "distinct (map (\<lambda>n. fst (snd n)) ?l)"
    and m: "\<And>k it. fmlookup (m_cache_map ds) k = Some it \<longleftrightarrow> (\<exists>v. (it, k, v) \<in> set ?l)"
    using assms(1) by (simp_all add: cache_inv_def list_keys_def)
  have f: "filter (\<lambda>n. fst (snd n) \<noteq> k) ?l = filter (\<lambda>n. fst n \<noteq> it) ?l"
    using inv_lookup_Some(1) [OF assms(1,2)] by simp
  have mem: "(it, k, v) \<in> set ?l" using assms(3) by (rule map_of_SomeD)
  have a: "distinct (map fst (m_cache_list (moved_to_front it (k, v) ds)))"
    using d1 by (auto simp: moved_to_front_def f distinct_map_filter)
  have b: "distinct (list_keys (moved_to_front it (k, v) ds))"
    using d2 by (auto simp: moved_to_front_def list_keys_def distinct_map_filter)
  have c: "fmlookup (m_cache_map (moved_to_front it (k, v) ds)) k' = Some it' \<longleftrightarrow>
           (\<exists>v'. (it', k', v') \<in> set (m_cache_list (moved_to_front it (k, v) ds)))" for k' it'
  proof (cases "k' = k")
    case True
    have "(\<exists>v'. (it', k, v') \<in> set ?l) \<longleftrightarrow> it' = it"
      using m [of k it'] assms(2) by auto
    with True assms(2) show ?thesis by (auto simp: moved_to_front_def)
  next
    case False
    with m [of k' it'] show ?thesis by (auto simp: moved_to_front_def)
  qed
  from a b c show ?thesis unfolding cache_inv_def by blast
qed

lemma get_inv:
  assumes "cache_inv ds"
  shows "\<exists>v ds'. get k ds = Some (v, ds') \<and> cache_inv ds'"
proof (cases "fmlookup (m_cache_map ds) k")
  case (Some it)
  from get_hit [OF assms Some] obtain v where
    v: "map_of (m_cache_list ds) it = Some (k, v)" "get k ds = Some (v, moved_to_front it (k, v) ds)"
    by blast
  from moved_to_front_inv [OF assms Some v(1)] v(2) show ?thesis by blast
next
  case None
  obtain success val db1 where r: "readFromDB k [] (m_db ds) = (success, val, db1)"
    by (metis prod_cases3)
  show ?thesis
  proof (cases success)
    case False
    with None r assms show ?thesis by (simp add: get_def)
  next
    case True
    have "cache_inv (ds\<lparr>m_db := db1\<rparr>)" using assms by simp
    from put_inv [OF this] obtain ds1 where
      p: "put k val (ds\<lparr>m_db := db1\<rparr>) = Some ds1" "cache_inv ds1" by blast
    let ?ds2 = "ds1\<lparr>m_modification_map := fmupd k False (m_modification_map ds1)\<rparr>"
    have i2: "cache_inv ?ds2" using p(2) by simp
    show ?thesis
    proof (cases "fmlookup (m_cache_map ds1) k")
      case None2: None
      with None r True p i2 show ?thesis by (simp add: get_def)
    next
      case (Some it)
      from inv_node [OF p(2) Some] obtain v where "map_of (m_cache_list ds1) it = Some (k, v)" ..
      with Some None r True p i2 show ?thesis by (simp add: get_def deref_def)
    qed
  qed
qed

lemma next_fault_frame:
  "next_fault db = (f, db1) \<Longrightarrow> db_data db1 = db_data db \<and> db_journal db1 = db_journal db"
  by (auto simp: next_fault_def split: list.splits)

lemma next_foreign_frame:
  "next_foreign db = (x, db1) \<Longrightarrow> db_data db1 = db_data db \<and> db_journal db1 = db_journal db"
  by (auto simp: next_foreign_def split: list.splits)











lemma prepare_frame:
  "sqlite3_prepare_v2 t db = (st, rows, db1) \<Longrightarrow>
     db_data db1 = db_data db \<and> db_journal db1 = db_journal db"
  by (auto simp: sqlite3_prepare_v2_def Let_def
      split: prod.splits if_splits option.splits
      dest!: next_fault_frame next_foreign_frame)


lemma step_loop_frame:
  "step_loop rows v0 db = (st, v, db1) \<Longrightarrow> db_data db1 = db_data db \<and> db_journal db1 = db_journal db"
proof (induction rows arbitrary: v0 db)
  case Nil
  then show ?case by (auto simp: Let_def split: prod.splits dest: next_fault_frame)
next
  case (Cons r rs)
  obtain f db2 where n: "next_fault db = (f, db2)" by (metis surj_pair)
  show ?case
  proof (cases f)
    case True
    with Cons.prems n show ?thesis by (auto dest: next_fault_frame)
  next
    case False
    with Cons.prems n have "step_loop rs (c_str r) db2 = (st, v, db1)" by simp
    from Cons.IH [OF this] next_fault_frame [OF n] show ?thesis by simp
  qed
qed

lemma readFromDB_unfold:
  "readFromDB key val db =
     (let (status, rows, db1) = sqlite3_prepare_v2 (c_str (select_statement key)) db
      in if status \<noteq> SQLITE_OK then (False, val, db1)
         else (let (status2, val2, db2) = step_loop rows val db1
               in if status2 \<noteq> SQLITE_DONE then (False, val2, db2)
                  else (True, val2, db2)))"
  by (simp add: readFromDB_def select_statement_def)

lemma readFromDB_frame:
  assumes "readFromDB k v0 db = (success, v, db1)"
  shows "db_data db1 = db_data db \<and> db_journal db1 = db_journal db"
proof -
  obtain st rows db2 where p: "sqlite3_prepare_v2 (c_str (select_statement k)) db = (st, rows, db2)"
    by (metis prod_cases3)
  show ?thesis
  proof (cases "st = SQLITE_OK")
    case False
    with assms p have "db1 = db2" by (simp add: readFromDB_unfold)
    with prepare_frame [OF p] show ?thesis by simp
  next
    case True
    obtain st2 v2 db3 where s: "step_loop rows v0 db2 = (st2, v2, db3)" by (metis prod_cases3)
    with assms p True have "db1 = db3"
      by (auto simp: readFromDB_unfold split: if_splits)
    with step_loop_frame [OF s] prepare_frame [OF p] show ?thesis by simp
  qed
qed



lemma get_cases:
  assumes "get k ds = Some (v, ds')"
  obtains (hit) it l1 where "fmlookup (m_cache_map ds) k = Some it"
      "splice_front (m_cache_list ds) it = Some l1" "ds' = ds\<lparr>m_cache_list := l1\<rparr>"
  | (failed) val db1 where "fmlookup (m_cache_map ds) k = None"
      "readFromDB k [] (m_db ds) = (False, val, db1)" "v = []" "ds' = ds\<lparr>m_db := db1\<rparr>"
  | (loaded) val db1 ds1 where "fmlookup (m_cache_map ds) k = None"
      "readFromDB k [] (m_db ds) = (True, val, db1)"
      "put k val (ds\<lparr>m_db := db1\<rparr>) = Some ds1"
      "ds' = ds1\<lparr>m_modification_map := fmupd k False (m_modification_map ds1)\<rparr>"
proof (cases "fmlookup (m_cache_map ds) k")
  case (Some it)
  with assms hit show ?thesis
    by (auto simp: get_def split: option.splits)
next
  case None
  obtain success val db1 where r: "readFromDB k [] (m_db ds) = (success, val, db1)"
    by (metis prod_cases3)
  show ?thesis
  proof (cases success)
    case False
    with None r assms failed show ?thesis by (auto simp: get_def)
  next
    case True
    with None r assms loaded show ?thesis
      by (auto simp: get_def Let_def split: option.splits)
  qed
qed

lemma put_size:
  assumes "good ds" "put k v ds = Some ds'"
  shows "size_cache ds' \<le> m_max_cache_size ds'"
proof -
  have inv: "cache_inv ds" using assms(1) by (simp add: good_def)
  have le: "length (m_cache_list ds) \<le> m_max_cache_size ds"
    using assms(1) inv_size [OF inv] by (simp add: good_def)
  have i: "cache_inv (inserted k v ds)" using inv by (rule inserted_inv)
  have ne: "m_cache_list (inserted k v ds) \<noteq> []" by (simp add: inserted_def)
  have e: "cache_inv (evicted (inserted k v ds))" using i ne by (rule evicted_inv)
  have li: "length (m_cache_list (inserted k v ds)) \<le> Suc (m_max_cache_size ds)"
    using le_trans [OF length_filter_le le, of "\<lambda>n. fst (snd n) \<noteq> k"]
    by (simp add: inserted_def)
  have c: "m_max_cache_size (evicted (inserted k v ds)) = m_max_cache_size ds"
    "m_max_cache_size (inserted k v ds) = m_max_cache_size ds"
    by (simp_all add: inserted_def evicted_def)
  have "length (m_cache_list (evicted (inserted k v ds))) \<le> m_max_cache_size ds"
    using li by (simp add: evicted_def)
  with assms(2) i e c show ?thesis
    by (auto simp: put_eq [OF inv] inv_size split: if_splits)
qed

lemma put_good: "good ds \<Longrightarrow> \<exists>ds'. put k v ds = Some ds' \<and> good ds'"
  using put_inv [of ds k v] put_size [of ds k v] by (auto simp: good_def)

lemma good_db [simp]: "good (ds\<lparr>m_db := db\<rparr>) = good ds"
  by (simp add: good_def size_cache_def)

lemma good_modification [simp]: "good (ds\<lparr>m_modification_map := mm\<rparr>) = good ds"
  by (simp add: good_def size_cache_def)

lemma get_good:
  assumes "good ds"
  shows "\<exists>v ds'. get k ds = Some (v, ds') \<and> good ds'"
proof -
  from assms have "cache_inv ds" by (simp add: good_def)
  from get_inv [OF this] obtain v ds' where g: "get k ds = Some (v, ds')" "cache_inv ds'"
    by blast
  from g(1) have "size_cache ds' \<le> m_max_cache_size ds'"
  proof (cases rule: get_cases)
    case (hit it l1)
    with assms show ?thesis by (simp add: good_def size_cache_def)
  next
    case (failed val db1)
    with assms show ?thesis by (simp add: good_def size_cache_def)
  next
    case (loaded val db1 ds1)
    have "good (ds\<lparr>m_db := db1\<rparr>)" using assms by simp
    from put_size [OF this loaded(3)] loaded(4) show ?thesis by (simp add: size_cache_def)
  qed
  with g show ?thesis by (auto simp: good_def)
qed

lemma do_call_good: "good ds \<Longrightarrow> \<exists>ds'. do_call c ds = Some ds' \<and> good ds'"
proof (cases c)
  case (Put k v)
  assume "good ds"
  from put_good [OF this] Put show ?thesis by simp
next
  case (Get k)
  assume "good ds"
  from get_good [OF this, of k] Get show ?thesis by auto
qed simp_all

lemma run_good: "good ds \<Longrightarrow> \<exists>ds'. run cs ds = Some ds' \<and> good ds'"
proof (induction cs arbitrary: ds)
  case Nil
  then show ?case by simp
next
  case (Cons c cs)
  from do_call_good [OF Cons.prems] obtain ds1 where d: "do_call c ds = Some ds1" "good ds1"
    by blast
  from Cons.IH [OF d(2)] d(1) show ?case by simp
qed

lemma ctor_good: "DataStore_ctor cap db = Inr ds0 \<Longrightarrow> good ds0 \<and> m_max_cache_size ds0 = cap"
  by (auto simp: DataStore_ctor_def Let_def good_def cache_inv_def size_cache_def list_keys_def
      fcard_fempty split: prod.splits if_splits)

lemma do_call_cap: "do_call c ds = Some ds' \<Longrightarrow> m_max_cache_size ds' = m_max_cache_size ds"
proof (cases c)
  case (Get k)
  assume "do_call c ds = Some ds'"
  with Get obtain v where "get k ds = Some (v, ds')" by auto
  then show ?thesis by (cases rule: get_cases) (auto dest: put_cap)
qed (auto dest: put_cap)

lemma run_cap: "run cs ds = Some ds' \<Longrightarrow> m_max_cache_size ds' = m_max_cache_size ds"
  by (induction cs arbitrary: ds) (auto split: option.splits dest: do_call_cap)

lemma inv_isInCache: "cache_inv ds \<Longrightarrow> isInCache k ds \<longleftrightarrow> k \<in> set (list_keys ds)"
proof -
  assume "cache_inv ds"
  then have "fset (fmdom (m_cache_map ds)) = set (list_keys ds)" by (rule inv_dom)
  then have "k |\<in>| fmdom (m_cache_map ds) \<longleftrightarrow> k \<in> set (list_keys ds)" by simp
  then show ?thesis by (simp add: isInCache_def fmlookup_dom_iff)
qed

lemma list_keys_inserted: "list_keys (inserted k v ds) = k # removeAll k (list_keys ds)"
proof -
  have "map (\<lambda>n. fst (snd n)) (filter (\<lambda>n. fst (snd n) \<noteq> k) l) =
        removeAll k (map (\<lambda>n. fst (snd n)) l)" for l :: cache_list
    by (induction l) auto
  then show ?thesis by (simp add: list_keys_def inserted_def)
qed

lemma list_keys_evicted: "list_keys (evicted ds) = butlast (list_keys ds)"
  by (simp add: list_keys_def evicted_def map_butlast)

lemma list_keys_moved: "list_keys (moved_to_front it (k, v) ds) = k # removeAll k (list_keys ds)"
proof -
  have "map (\<lambda>n. fst (snd n)) (filter (\<lambda>n. fst (snd n) \<noteq> k) l) =
        removeAll k (map (\<lambda>n. fst (snd n)) l)" for l :: cache_list
    by (induction l) auto
  then show ?thesis by (simp add: list_keys_def moved_to_front_def)
qed

lemma size_inserted:
  assumes "cache_inv ds"
  shows "size_cache (inserted k v ds) = length (k # removeAll k (list_keys ds))"
proof -
  have "cache_inv (inserted k v ds)" using assms by (rule inserted_inv)
  then have "size_cache (inserted k v ds) = length (list_keys (inserted k v ds))"
    by (simp add: inv_size list_keys_def)
  then show ?thesis by (simp only: list_keys_inserted)
qed

lemma put_keys:
  assumes "cache_inv ds"
  shows "\<exists>ds'. put k v ds = Some ds' \<and>
           list_keys ds' =
             (if m_max_cache_size ds < length (k # removeAll k (list_keys ds))
              then butlast (k # removeAll k (list_keys ds))
              else k # removeAll k (list_keys ds))"
  using put_eq [OF assms, of k v] size_inserted [OF assms, of k v]
  by (simp add: list_keys_evicted list_keys_inserted del: length_Cons)

lemma put_front:
  assumes "cache_inv ds" "1 \<le> m_max_cache_size ds"
  shows "\<exists>ds' it rest. put k v ds = Some ds' \<and> m_cache_list ds' = (it, k, v) # rest \<and>
           fmlookup (m_cache_map ds') k = Some it \<and> isModified k ds'"
proof (cases "m_max_cache_size ds < size_cache (inserted k v ds)")
  case False
  then have "put k v ds = Some (inserted k v ds)" by (simp add: put_eq [OF assms(1)])
  then show ?thesis by (simp add: inserted_def isModified_def)
next
  case True
  let ?f = "filter (\<lambda>n. fst (snd n) \<noteq> k) (m_cache_list ds)"
  let ?it = "fresh_itr (m_cache_list ds)"
  have p: "put k v ds = Some (evicted (inserted k v ds))"
    using True by (simp add: put_eq [OF assms(1)])
  have "cache_inv (inserted k v ds)" using assms(1) by (rule inserted_inv)
  then have "size_cache (inserted k v ds) = length (m_cache_list (inserted k v ds))"
    by (rule inv_size)
  with True assms(2) have ne: "?f \<noteq> []" by (auto simp: inserted_def)
  then have "last ?f \<in> set ?f" by (rule last_in_set)
  then have lk: "fst (snd (last ?f)) \<noteq> k" by simp
  have l: "m_cache_list (evicted (inserted k v ds)) = (?it, k, v) # butlast ?f"
    using ne by (simp add: evicted_def inserted_def)
  have m: "fmlookup (m_cache_map (evicted (inserted k v ds))) k = Some ?it"
    using ne lk by (simp add: evicted_def inserted_def)
  have d: "isModified k (evicted (inserted k v ds))"
    using ne lk by (simp add: evicted_def inserted_def isModified_def)
  from p l m d show ?thesis by blast
qed

lemma reached_good:
  assumes "DataStore_ctor cap db = Inr ds0" "run cs ds0 = Some ds"
  shows "good ds" and "m_max_cache_size ds = cap"
proof -
  from ctor_good [OF assms(1)] have g: "good ds0" and c: "m_max_cache_size ds0 = cap"
    by simp_all
  from run_good [OF g, of cs] assms(2) show "good ds" by simp
  from run_cap [OF assms(2)] c show "m_max_cache_size ds = cap" by simp
qed

lemma put_lru_order:
  assumes "cache_inv ds"
  shows "\<exists>ds'. put k v ds = Some ds' \<and>
           list_keys ds' = lru_order (m_max_cache_size ds) k (list_keys ds)"
  using put_keys [OF assms, of k v] by (simp only: lru_order_def)

lemma get_miss_keys:
  assumes "cache_inv ds" "\<not> isInCache k ds"
  shows "\<exists>val ds'. get k ds = Some (val, ds') \<and>
           list_keys ds' =
             (if fst (readFromDB k [] (m_db ds))
              then lru_order (m_max_cache_size ds) k (list_keys ds)
              else list_keys ds)"
proof -
  from get_inv [OF assms(1)] obtain val ds' where g: "get k ds = Some (val, ds')" by blast
  from g have "list_keys ds' =
             (if fst (readFromDB k [] (m_db ds))
              then lru_order (m_max_cache_size ds) k (list_keys ds)
              else list_keys ds)"
  proof (cases rule: get_cases)
    case (hit it l1)
    with assms(2) show ?thesis by (simp add: isInCache_def)
  next
    case (failed val db1)
    then show ?thesis by (simp add: list_keys_def)
  next
    case (loaded val db1 ds1)
    have "cache_inv (ds\<lparr>m_db := db1\<rparr>)" using assms(1) by simp
    from put_lru_order [OF this, of k val] loaded(3)
    have "list_keys ds1 = lru_order (m_max_cache_size ds) k (list_keys ds)"
      by (simp add: list_keys_def)
    with loaded show ?thesis by (simp add: list_keys_def)
  qed
  with g show ?thesis by blast
qed

lemma get_hit_keys:
  assumes "cache_inv ds" "isInCache k ds"
  shows "\<exists>val ds'. get k ds = Some (val, ds') \<and> isInCache k ds' \<and>
           list_keys ds' = k # removeAll k (list_keys ds)"
proof -
  from assms(2) obtain it where l: "fmlookup (m_cache_map ds) k = Some it"
    by (auto simp: isInCache_def)
  from get_hit [OF assms(1) l] obtain v where
    "get k ds = Some (v, moved_to_front it (k, v) ds)" by blast
  moreover have "isInCache k (moved_to_front it (k, v) ds)"
    using l by (simp add: isInCache_def moved_to_front_def)
  ultimately show ?thesis using list_keys_moved [of it k v ds] by blast
qed

lemma purge_loop_eq:
  "purge_loop l ds (ss, b, st) =
     (ss @ concat (map (\<lambda>kv. row_text kv @ '','')
                     (filter (\<lambda>kv. isModified (fst kv) ds) (map snd l))),
      b \<or> filter (\<lambda>kv. isModified (fst kv) ds) (map snd l) \<noteq> [],
      st @ filter (\<lambda>kv. isModified (fst kv) ds) (map snd l))"
  by (induction l arbitrary: ss b st) (auto simp: row_text_def)

lemma streamed_text:
  "rows \<noteq> [] \<Longrightarrow>
     butlast (h @ concat (map (\<lambda>kv. row_text kv @ '','') rows)) @ '';'' = h @ rows_body rows"
proof (induction rows arbitrary: h rule: rows_body.induct)
  case 1
  then show ?case by simp
next
  case (2 kv)
  have "butlast ((h @ row_text kv) @ '','') = h @ row_text kv" by (rule butlast_snoc)
  then show ?case by simp
next
  case (3 kv kv' kvs)
  have "butlast ((h @ row_text kv @ '','') @ concat (map (\<lambda>kv. row_text kv @ '','') (kv' # kvs)))
          @ '';'' = (h @ row_text kv @ '','') @ rows_body (kv' # kvs)"
    by (rule "3.IH") simp
  then show ?case by simp
qed

lemma purgeToStorage_eq:
  "purgeToStorage ds =
     (if dirty_entries ds = [] then (True, ds)
      else (fst (sqlite3_exec (c_str (insert_statement (dirty_entries ds)))
                   (journal_add (dirty_entries ds) (m_db ds))) = SQLITE_OK,
            ds\<lparr>m_db := snd (sqlite3_exec (c_str (insert_statement (dirty_entries ds)))
                              (journal_add (dirty_entries ds) (m_db ds)))\<rparr>))"
proof (cases "dirty_entries ds = []")
  case True
  then show ?thesis
    by (simp add: purgeToStorage_def purge_loop_eq dirty_entries_def entries_def)
next
  case False
  from streamed_text [OF False, of "''INSERT OR REPLACE INTO data (key, value) VALUES ''"]
  have "butlast (''INSERT OR REPLACE INTO data (key, value) VALUES '' @
                 concat (map (\<lambda>kv. row_text kv @ '','') (dirty_entries ds))) @ '';'' =
        insert_statement (dirty_entries ds)"
    by (simp only: insert_statement_def)
  with False show ?thesis
    by (auto simp: purgeToStorage_def purge_loop_eq dirty_entries_def entries_def
        split: prod.splits)
qed

lemma dirty_entries_Nil: "m_cache_list ds = [] \<Longrightarrow> dirty_entries ds = []"
  by (simp add: dirty_entries_def entries_def)

lemma dtor_eq:
  "DataStore_dtor ds =
     (if dirty_entries ds = [] then m_db ds
      else snd (sqlite3_exec (c_str (insert_statement (dirty_entries ds)))
                  (journal_add (dirty_entries ds) (m_db ds))))"
  by (simp add: DataStore_dtor_def purgeToStorage_eq dirty_entries_Nil)

lemma exec_journal: "db_journal (snd (sqlite3_exec t db)) = db_journal db"
  by (auto simp: sqlite3_exec_def Let_def split: prod.splits option.splits
      dest!: next_fault_frame next_foreign_frame)

lemma dtor_journal:
  "db_journal (DataStore_dtor ds) =
     db_journal (m_db ds) @ (if dirty_entries ds = [] then [] else [dirty_entries ds])"
  by (simp add: dtor_eq exec_journal journal_add_def)




lemma do_call_frame:
  assumes "do_call c ds = Some ds'"
  shows "db_journal (m_db ds') = db_journal (m_db ds) \<and> db_data (m_db ds') = db_data (m_db ds)"
proof (cases c)
  case (Put k v)
  with assms show ?thesis by (auto dest: put_db)
next
  case (Get k)
  with assms obtain v where "get k ds = Some (v, ds')" by auto
  then show ?thesis
  proof (cases rule: get_cases)
    case (hit it l1)
    then show ?thesis by simp
  next
    case (failed val db1)
    then show ?thesis by (auto dest: readFromDB_frame)
  next
    case (loaded val db1 ds1)
    from put_db [OF loaded(3)] readFromDB_frame [OF loaded(2)] loaded(4) show ?thesis by simp
  qed
next
  case (IsInCache k)
  with assms show ?thesis by simp
next
  case Size
  with assms show ?thesis by simp
qed

lemma run_frame:
  "run cs ds = Some ds' \<Longrightarrow>
     db_journal (m_db ds') = db_journal (m_db ds) \<and> db_data (m_db ds') = db_data (m_db ds)"
proof (induction cs arbitrary: ds)
  case Nil
  then show ?case by simp
next
  case (Cons c cs)
  then obtain ds1 where d: "do_call c ds = Some ds1" "run cs ds1 = Some ds'"
    by (auto split: option.splits)
  from Cons.IH [OF d(2)] do_call_frame [OF d(1)] show ?case by simp
qed

lemma put_keeps_clean:
  "put k' v ds = Some ds' \<Longrightarrow> k \<noteq> k' \<Longrightarrow> \<not> isModified k ds \<Longrightarrow> \<not> isModified k ds'"
  by (auto simp: put_def Let_def evict_oldest_def isModified_def
      split: option.splits if_splits)

lemma get_keeps_clean:
  assumes "get k' ds = Some (v, ds')" "\<not> isModified k ds"
  shows "\<not> isModified k ds'"
  using assms(1)
proof (cases rule: get_cases)
  case (hit it l1)
  with assms(2) show ?thesis by (simp add: isModified_def)
next
  case (failed val db1)
  with assms(2) show ?thesis by (simp add: isModified_def)
next
  case (loaded val db1 ds1)
  show ?thesis
  proof (cases "k = k'")
    case True
    with loaded(4) show ?thesis by (simp add: isModified_def)
  next
    case False
    have "\<not> isModified k (ds\<lparr>m_db := db1\<rparr>)" using assms(2) by (simp add: isModified_def)
    from put_keeps_clean [OF loaded(3) False this] loaded(4) False
    show ?thesis by (simp add: isModified_def)
  qed
qed

lemma get_marks_clean:
  assumes "get k ds = Some (v, ds')" "fmlookup (m_cache_map ds) k = None"
    "fst (readFromDB k [] (m_db ds))"
  shows "\<not> isModified k ds'"
  using assms(1)
proof (cases rule: get_cases)
  case (hit it l1)
  with assms(2) show ?thesis by simp
next
  case (failed val db1)
  with assms(3) show ?thesis by simp
next
  case (loaded val db1 ds1)
  then show ?thesis by (simp add: isModified_def)
qed

lemma run_keeps_clean:
  "run cs ds = Some ds' \<Longrightarrow> \<forall>v. Put k v \<notin> set cs \<Longrightarrow> \<not> isModified k ds \<Longrightarrow>
     \<not> isModified k ds'"
proof (induction cs arbitrary: ds)
  case Nil
  then show ?case by simp
next
  case (Cons c cs)
  then obtain ds1 where d: "do_call c ds = Some ds1" "run cs ds1 = Some ds'"
    by (auto split: option.splits)
  have "\<not> isModified k ds1"
  proof (cases c)
    case (Put k' v)
    with Cons.prems(2) have "k \<noteq> k'" by auto
    with d(1) Put Cons.prems(3) show ?thesis by (auto dest: put_keeps_clean)
  next
    case (Get k')
    with d(1) obtain v where "get k' ds = Some (v, ds1)" by auto
    from get_keeps_clean [OF this Cons.prems(3)] show ?thesis .
  next
    case (IsInCache k')
    with d(1) Cons.prems(3) show ?thesis by simp
  next
    case Size
    with d(1) Cons.prems(3) show ?thesis by simp
  qed
  moreover have "\<forall>v. Put k v \<notin> set cs" using Cons.prems(2) by simp
  ultimately show ?case using Cons.IH [OF d(2)] by blast
qed



lemma get_load_failure:
  assumes "\<not> isInCache k ds" and "\<not> fst (readFromDB k [] (m_db ds))"
  shows "get k ds = Some ([], ds\<lparr>m_db := snd (snd (readFromDB k [] (m_db ds)))\<rparr>)"
  using assms by (auto simp: get_def isInCache_def split: prod.splits)

subsection \<open>Texts that are not the statement meant\<close>

text \<open>
  Two runs of the model on strings with apostrophes.  A \<open>get\<close> whose key closes the
  literal and goes on with \<open>OR '1'='1'\<close> hands sqlite a text that is no
  \<open>select_statement\<close>; what comes back is what sqlite makes of that text, here the
  value of another key.  A teardown whose dirty value closes its literal and opens a
  second row hands sqlite the \<open>insert_statement\<close> of two rows: the dirty key gets
  the part of its value before the apostrophe, and the row of a clean key is
  overwritten.
\<close>

lemma get_with_apostrophe:
  "select_statement (''x'' @ apos # '' OR '' @ apos # ''1'' @ apos # ''='' @ apos # ''1'') =
     ''SELECT value FROM data WHERE key = '' @ apos # ''x'' @ apos # '' OR '' @ apos # ''1'' @
        apos # ''='' @ apos # ''1'' @ apos # '' LIMIT 1;'' \<and>
   decode_select
     (c_str (select_statement
               (''x'' @ apos # '' OR '' @ apos # ''1'' @ apos # ''='' @ apos # ''1''))) = None \<and>
   map_option fst
     (get (''x'' @ apos # '' OR '' @ apos # ''1'' @ apos # ''='' @ apos # ''1'')
        (empty_cache 1
           \<lparr>db_data = fmap_of_list [(''a'', ''secret'')], db_faults = [], db_journal = [],
            db_foreign = [(True, [''secret''], [])]\<rparr>)) = Some ''secret''"
  by code_simp

lemma teardown_with_apostrophe:
  "run [Get ''a'', Put ''k'' (''x'' @ apos # '' ),( '' @ apos # ''a'' @ apos # '', '' @ apos # ''evil'')]
     (empty_cache 2 (fresh_db [(''a'', ''x'')])) =
     Some \<lparr>m_cache_list =
             [(2, ''k'', ''x'' @ apos # '' ),( '' @ apos # ''a'' @ apos # '', '' @ apos # ''evil''),
              (1, ''a'', ''x'')],
           m_cache_map = fmap_of_list [(''a'', 1), (''k'', 2)],
           m_modification_map = fmap_of_list [(''a'', False), (''k'', True)],
           m_max_cache_size = 2, m_db = fresh_db [(''a'', ''x'')]\<rparr> \<and>
   db_data (DataStore_dtor
     \<lparr>m_cache_list =
        [(2, ''k'', ''x'' @ apos # '' ),( '' @ apos # ''a'' @ apos # '', '' @ apos # ''evil''),
         (1, ''a'', ''x'')],
      m_cache_map = fmap_of_list [(''a'', 1), (''k'', 2)],
      m_modification_map = fmap_of_list [(''a'', False), (''k'', True)],
      m_max_cache_size = 2, m_db = fresh_db [(''a'', ''x'')]\<rparr>) =
     fmap_of_list [(''a'', ''evil''), (''k'', ''x'')]"
  by code_simp

subsection \<open>Bounded residency\<close>

text \<open>
  Claim C3.  From a freshly constructed cache of any capacity, every sequence of calls
  runs to completion, and after each call of the sequence (that is, after every prefix
  of it) \<open>size()\<close> is at most the capacity given to the constructor.  The calls
  include \<open>get\<close>, whose reloads go through \<open>put\<close>.
\<close>

theorem bounded_residency:
  assumes "DataStore_ctor cap db = Inr ds0"
  shows "\<exists>ds. run (take n cs) ds0 = Some ds \<and> size_cache ds \<le> cap"
proof -
  from ctor_good [OF assms] have g: "good ds0" and c: "m_max_cache_size ds0 = cap"
    by simp_all
  from run_good [OF g] obtain ds where r: "run (take n cs) ds0 = Some ds" "good ds"
    by blast
  from run_cap [OF r(1)] c r(2) have "size_cache ds \<le> cap" by (simp add: good_def)
  with r(1) show ?thesis by blast
qed

theorem bounded_residency_witness:
  "DataStore_ctor 1 (fresh_db []) = Inr (empty_cache 1 (fresh_db [])) \<and>
   (\<exists>ds. run (take 2 [Put ''1'' ''one'', Put ''2'' ''two'', Get ''1''])
            (empty_cache 1 (fresh_db [])) = Some ds \<and> size_cache ds \<le> 1) \<and>
   map_option size_cache
     (run (take 2 [Put ''1'' ''one'', Put ''2'' ''two'', Get ''1''])
        (empty_cache 1 (fresh_db []))) = Some 1"
proof -
  have h: "DataStore_ctor 1 (fresh_db []) = Inr (empty_cache 1 (fresh_db []))"
    by code_simp
  have e: "map_option size_cache
     (run (take 2 [Put ''1'' ''one'', Put ''2'' ''two'', Get ''1''])
        (empty_cache 1 (fresh_db []))) = Some 1"
    by code_simp
  from bounded_residency [OF h, of 2 "[Put ''1'' ''one'', Put ''2'' ''two'', Get ''1'']"] h e
  show ?thesis by blast
qed

subsection \<open>The index and the list hold the same keys\<close>

text \<open>
  Claim C9.  In every state reached from a freshly constructed cache by calls of
  \<open>put\<close>, \<open>get\<close>, \<open>isInCache\<close> and \<open>size\<close>, the keys of the index are the keys
  of the recency list, no key occurs twice in the list, and the iterator the index holds
  for a key designates a node carrying that key.
\<close>

theorem index_matches_list:
  assumes "DataStore_ctor cap db = Inr ds0"
  shows "\<exists>ds. run cs ds0 = Some ds \<and>
           fset (fmdom (m_cache_map ds)) = set (list_keys ds) \<and>
           distinct (list_keys ds) \<and>
           (\<forall>k it. fmlookup (m_cache_map ds) k = Some it \<longrightarrow>
              (\<exists>v. deref (m_cache_list ds) it = Some (k, v)))"
proof -
  from ctor_good [OF assms] have "good ds0" by simp
  from run_good [OF this] obtain ds where r: "run cs ds0 = Some ds" "good ds"
    by blast
  from r(2) have i: "cache_inv ds" by (simp add: good_def)
  then have "distinct (list_keys ds)" by (simp add: cache_inv_def)
  moreover have "fset (fmdom (m_cache_map ds)) = set (list_keys ds)" using i by (rule inv_dom)
  moreover have "\<forall>k it. fmlookup (m_cache_map ds) k = Some it \<longrightarrow>
              (\<exists>v. deref (m_cache_list ds) it = Some (k, v))"
    using inv_node [OF i] by (simp add: deref_def)
  ultimately show ?thesis using r(1) by blast
qed

theorem index_matches_list_witness:
  "DataStore_ctor 2 (fresh_db [(''a'', ''x'')]) = Inr (empty_cache 2 (fresh_db [(''a'', ''x'')])) \<and>
   (\<exists>ds. run [Put ''b'' ''y'', Get ''a'', Size, Put ''c'' ''z'', IsInCache ''b'', Get ''a'']
            (empty_cache 2 (fresh_db [(''a'', ''x'')])) = Some ds \<and>
          fset (fmdom (m_cache_map ds)) = set (list_keys ds) \<and>
          distinct (list_keys ds) \<and>
          (\<forall>k it. fmlookup (m_cache_map ds) k = Some it \<longrightarrow>
             (\<exists>v. deref (m_cache_list ds) it = Some (k, v)))) \<and>
   map_option list_keys
     (run [Put ''b'' ''y'', Get ''a'', Size, Put ''c'' ''z'', IsInCache ''b'', Get ''a'']
        (empty_cache 2 (fresh_db [(''a'', ''x'')]))) = Some [''a'', ''c'']"
proof -
  have h: "DataStore_ctor 2 (fresh_db [(''a'', ''x'')]) = Inr (empty_cache 2 (fresh_db [(''a'', ''x'')]))"
    by code_simp
  have e: "map_option list_keys
     (run [Put ''b'' ''y'', Get ''a'', Size, Put ''c'' ''z'', IsInCache ''b'', Get ''a'']
        (empty_cache 2 (fresh_db [(''a'', ''x'')]))) = Some [''a'', ''c'']"
    by code_simp
  from index_matches_list [OF h,
      of "[Put ''b'' ''y'', Get ''a'', Size, Put ''c'' ''z'', IsInCache ''b'', Get ''a'']"] h e
  show ?thesis by blast
qed

subsection \<open>Recency order\<close>

text \<open>
  Claim C4, as amended.  In every state reached from a freshly constructed cache:
  \<open>put(k, v)\<close> leaves the keys of the list in the order \<open>lru_order\<close> prescribes,
  so the key dropped when the insertion exceeds the capacity is the last, least recently
  used, key of the list, and that key is no longer resident; when the capacity is at
  least 1, \<open>k\<close> is resident and first in the list after \<open>put(k, v)\<close>; a \<open>get(k)\<close>
  that hits leaves \<open>k\<close> resident and first, the other keys keeping their order; a
  \<open>get(k)\<close> that misses leaves the order of \<open>lru_order\<close> when the load succeeds,
  and the list as it was otherwise.
\<close>

theorem recency_order:
  assumes "DataStore_ctor cap db = Inr ds0" and "run cs ds0 = Some ds"
  shows "(\<exists>ds'. put k v ds = Some ds' \<and>
            list_keys ds' = lru_order cap k (list_keys ds) \<and>
            (1 \<le> cap \<longrightarrow> isInCache k ds' \<and> (\<exists>rest. list_keys ds' = k # rest)) \<and>
            (cap < length (k # removeAll k (list_keys ds)) \<longrightarrow>
               \<not> isInCache (last (k # removeAll k (list_keys ds))) ds')) \<and>
         (isInCache k ds \<longrightarrow>
            (\<exists>val ds'. get k ds = Some (val, ds') \<and> isInCache k ds' \<and>
               list_keys ds' = k # removeAll k (list_keys ds))) \<and>
         (\<not> isInCache k ds \<longrightarrow>
            (\<exists>val ds'. get k ds = Some (val, ds') \<and>
               list_keys ds' =
                 (if fst (readFromDB k [] (m_db ds))
                  then lru_order cap k (list_keys ds) else list_keys ds)))"
proof -
  from reached_good [OF assms] have g: "good ds" and c: "m_max_cache_size ds = cap" .
  from g have i: "cache_inv ds" by (simp add: good_def)
  from put_lru_order [OF i, of k v] c obtain ds' where
    p: "put k v ds = Some ds'" "list_keys ds' = lru_order cap k (list_keys ds)" by auto
  from put_inv [OF i, of k v] p(1) have i': "cache_inv ds'" by simp
  have d: "distinct (k # removeAll k (list_keys ds))"
    using i by (simp add: cache_inv_def distinct_removeAll)
  have front: "isInCache k ds' \<and> (\<exists>rest. list_keys ds' = k # rest)" if "1 \<le> cap"
  proof -
    from put_front [OF i, of k v] that c p(1) obtain it rest where
      "m_cache_list ds' = (it, k, v) # rest" "fmlookup (m_cache_map ds') k = Some it" by auto
    then show ?thesis by (simp add: isInCache_def list_keys_def)
  qed
  have ev: "\<not> isInCache (last (k # removeAll k (list_keys ds))) ds'"
    if "cap < length (k # removeAll k (list_keys ds))"
  proof -
    let ?ks = "k # removeAll k (list_keys ds)"
    from that p(2) have "list_keys ds' = butlast ?ks" by (simp add: lru_order_def)
    moreover have "last ?ks \<notin> set (butlast ?ks)"
      using d by (metis append_butlast_last_id distinct_butlast list.distinct(1) not_distinct_conv_prefix)
    ultimately show ?thesis using inv_isInCache [OF i'] by simp
  qed
  from get_hit_keys [OF i] get_miss_keys [OF i, of k] c p front ev show ?thesis by auto
qed

theorem recency_order_witness:
  "DataStore_ctor 2 (fresh_db []) = Inr (empty_cache 2 (fresh_db [])) \<and>
   run [Put ''a'' ''1'', Put ''b'' ''2''] (empty_cache 2 (fresh_db [])) =
     Some \<lparr>m_cache_list = [(2, ''b'', ''2''), (1, ''a'', ''1'')],
           m_cache_map = fmap_of_list [(''a'', 1), (''b'', 2)],
           m_modification_map = fmap_of_list [(''a'', True), (''b'', True)],
           m_max_cache_size = 2, m_db = fresh_db []\<rparr> \<and>
   (\<exists>ds'. put ''c'' ''3'' \<lparr>m_cache_list = [(2, ''b'', ''2''), (1, ''a'', ''1'')],
              m_cache_map = fmap_of_list [(''a'', 1), (''b'', 2)],
              m_modification_map = fmap_of_list [(''a'', True), (''b'', True)],
              m_max_cache_size = 2, m_db = fresh_db []\<rparr> = Some ds' \<and>
          list_keys ds' = [''c'', ''b''] \<and> isInCache ''c'' ds' \<and> \<not> isInCache ''a'' ds') \<and>
   (\<exists>val ds'. get ''a'' \<lparr>m_cache_list = [(2, ''b'', ''2''), (1, ''a'', ''1'')],
              m_cache_map = fmap_of_list [(''a'', 1), (''b'', 2)],
              m_modification_map = fmap_of_list [(''a'', True), (''b'', True)],
              m_max_cache_size = 2, m_db = fresh_db []\<rparr> = Some (val, ds') \<and>
          isInCache ''a'' ds' \<and> list_keys ds' = [''a'', ''b''])"
proof -
  define ds where "ds = \<lparr>m_cache_list = [(2, ''b'', ''2''), (1, ''a'', ''1'')],
              m_cache_map = fmap_of_list [(''a'', 1), (''b'', 2)],
              m_modification_map = fmap_of_list [(''a'', True), (''b'', True)],
              m_max_cache_size = 2, m_db = fresh_db []\<rparr>"
  have h1: "DataStore_ctor 2 (fresh_db []) = Inr (empty_cache 2 (fresh_db []))"
    by code_simp
  have h2: "run [Put ''a'' ''1'', Put ''b'' ''2''] (empty_cache 2 (fresh_db [])) = Some ds"
    unfolding ds_def by code_simp
  have k: "list_keys ds = [''b'', ''a'']" unfolding ds_def by code_simp
  have ia: "isInCache ''a'' ds" unfolding ds_def by code_simp
  have o: "lru_order 2 ''c'' [''b'', ''a''] = [''c'', ''b'']" by code_simp
  note t = recency_order [OF h1 h2]
  from t [of "''c''" "''3''"] have p: "\<exists>ds'. put ''c'' ''3'' ds = Some ds' \<and>
          list_keys ds' = [''c'', ''b''] \<and> isInCache ''c'' ds' \<and> \<not> isInCache ''a'' ds'"
    by (auto simp: k o)
  from t [of "''a''" "''1''"] ia have g: "\<exists>val ds'. get ''a'' ds = Some (val, ds') \<and>
          isInCache ''a'' ds' \<and> list_keys ds' = [''a'', ''b'']"
    by (auto simp: k)
  from h1 h2 p g show ?thesis unfolding ds_def by blast
qed

text \<open>
  Claim C4 as stated fails when the capacity is 0: after \<open>put("x", "y")\<close> on a new
  cache of capacity 0 the list is empty and \<open>"x"\<close> is not resident, so it is not the
  most recently used resident key.
\<close>

theorem recency_order_counterexample:
  "DataStore_ctor 0 (fresh_db []) = Inr (empty_cache 0 (fresh_db [])) \<and>
   map_option list_keys (put ''x'' ''y'' (empty_cache 0 (fresh_db []))) = Some [] \<and>
   map_option (isInCache ''x'') (put ''x'' ''y'' (empty_cache 0 (fresh_db []))) = Some False"
  by code_simp

subsection \<open>Postconditions of \<open>put\<close>\<close>

text \<open>
  Claim C5, as amended.  In every state reached from a freshly constructed cache of
  capacity at least 1, \<open>put(k, v)\<close> returns, and afterwards \<open>k\<close> is resident, the
  first node of the list holds \<open>k\<close> with \<open>v\<close> and is the node the index gives for
  \<open>k\<close>, \<open>k\<close> is marked modified, and \<open>size()\<close> is at most the capacity.
\<close>

theorem put_postconditions:
  assumes "DataStore_ctor cap db = Inr ds0" and "run cs ds0 = Some ds" and "1 \<le> cap"
  shows "\<exists>ds' it rest. put k v ds = Some ds' \<and>
           isInCache k ds' \<and>
           m_cache_list ds' = (it, k, v) # rest \<and> fmlookup (m_cache_map ds') k = Some it \<and>
           isModified k ds' \<and>
           size_cache ds' \<le> cap"
proof -
  from reached_good [OF assms(1,2)] have g: "good ds" and c: "m_max_cache_size ds = cap" .
  from g have i: "cache_inv ds" by (simp add: good_def)
  from put_front [OF i, of k v] assms(3) c obtain ds' it rest where
    p: "put k v ds = Some ds'" "m_cache_list ds' = (it, k, v) # rest"
      "fmlookup (m_cache_map ds') k = Some it" "isModified k ds'"
    by auto
  from p(3) have r: "isInCache k ds'" by (simp add: isInCache_def)
  from put_size [OF g p(1)] put_cap [OF p(1)] c have "size_cache ds' \<le> cap" by simp
  with p r show ?thesis by blast
qed

theorem put_postconditions_witness:
  "DataStore_ctor 1 (fresh_db []) = Inr (empty_cache 1 (fresh_db [])) \<and>
   run [Put ''1'' ''one''] (empty_cache 1 (fresh_db [])) =
     Some \<lparr>m_cache_list = [(1, ''1'', ''one'')], m_cache_map = fmap_of_list [(''1'', 1)],
           m_modification_map = fmap_of_list [(''1'', True)],
           m_max_cache_size = 1, m_db = fresh_db []\<rparr> \<and>
   (1::nat) \<le> 1 \<and>
   (\<exists>ds' it rest.
      put ''2'' ''two'' \<lparr>m_cache_list = [(1, ''1'', ''one'')],
           m_cache_map = fmap_of_list [(''1'', 1)],
           m_modification_map = fmap_of_list [(''1'', True)],
           m_max_cache_size = 1, m_db = fresh_db []\<rparr> = Some ds' \<and>
      isInCache ''2'' ds' \<and>
      m_cache_list ds' = (it, ''2'', ''two'') # rest \<and>
      fmlookup (m_cache_map ds') ''2'' = Some it \<and>
      isModified ''2'' ds' \<and> size_cache ds' \<le> 1)"
proof -
  have h1: "DataStore_ctor 1 (fresh_db []) = Inr (empty_cache 1 (fresh_db []))"
    by code_simp
  have h2: "run [Put ''1'' ''one''] (empty_cache 1 (fresh_db [])) =
     Some \<lparr>m_cache_list = [(1, ''1'', ''one'')], m_cache_map = fmap_of_list [(''1'', 1)],
           m_modification_map = fmap_of_list [(''1'', True)],
           m_max_cache_size = 1, m_db = fresh_db []\<rparr>"
    by code_simp
  have h3: "(1::nat) \<le> 1" by simp
  from put_postconditions [OF h1 h2 h3, of "''2''" "''two''"] h1 h2 h3 show ?thesis by blast
qed

text \<open>
  Claim C5 as stated includes capacity 0, where it fails: in a cache of capacity 0,
  \<open>put("k", "v")\<close> evicts the pair it has just inserted, and afterwards \<open>"k"\<close> is
  neither resident nor marked modified.
\<close>

theorem put_postconditions_counterexample:
  "DataStore_ctor 0 (fresh_db [(''b'', ''2'')]) = Inr (empty_cache 0 (fresh_db [(''b'', ''2'')])) \<and>
   run [Get ''b''] (empty_cache 0 (fresh_db [(''b'', ''2'')])) =
     Some \<lparr>m_cache_list = [], m_cache_map = fmempty,
           m_modification_map = fmap_of_list [(''b'', False)],
           m_max_cache_size = 0, m_db = fresh_db [(''b'', ''2'')]\<rparr> \<and>
   put ''k'' ''v'' \<lparr>m_cache_list = [], m_cache_map = fmempty,
           m_modification_map = fmap_of_list [(''b'', False)],
           m_max_cache_size = 0, m_db = fresh_db [(''b'', ''2'')]\<rparr> =
     Some \<lparr>m_cache_list = [], m_cache_map = fmempty,
           m_modification_map = fmap_of_list [(''b'', False)],
           m_max_cache_size = 0, m_db = fresh_db [(''b'', ''2'')]\<rparr> \<and>
   \<not> isInCache ''k'' \<lparr>m_cache_list = [], m_cache_map = fmempty,
           m_modification_map = fmap_of_list [(''b'', False)],
           m_max_cache_size = 0, m_db = fresh_db [(''b'', ''2'')]\<rparr> \<and>
   \<not> isModified ''k'' \<lparr>m_cache_list = [], m_cache_map = fmempty,
           m_modification_map = fmap_of_list [(''b'', False)],
           m_max_cache_size = 0, m_db = fresh_db [(''b'', ''2'')]\<rparr>"
  by code_simp

subsection \<open>Teardown\<close>



subsection \<open>No write for a key that was only loaded\<close>

text \<open>
  Claim C8.  In a state reached from a freshly constructed cache, let \<open>k\<close> be a key
  that is not resident and that \<open>get(k)\<close> loads from the database.  Then
  \<open>get(k)\<close> followed by any calls that hold no \<open>put(k, ...)\<close>, whether or not they
  evict \<open>k\<close>, run to completion without handing sqlite any \<open>INSERT OR REPLACE\<close>:
  the journal and the table are as before.  \<open>k\<close> is not marked modified at the end, so
  that a teardown at that point writes no row for \<open>k\<close> either.
\<close>

theorem reloaded_key_not_written:
  assumes "DataStore_ctor cap db = Inr ds0" and "run cs0 ds0 = Some ds"
    and "\<not> isInCache k ds" and "fst (readFromDB k [] (m_db ds))"
    and "\<forall>v. Put k v \<notin> set cs"
  shows "\<exists>ds2. run (Get k # cs) ds = Some ds2 \<and>
           db_journal (m_db ds2) = db_journal (m_db ds) \<and>
           db_data (m_db ds2) = db_data (m_db ds) \<and>
           \<not> isModified k ds2 \<and>
           (\<forall>rows \<in> set (drop (length (db_journal (m_db ds))) (db_journal (DataStore_dtor ds2))).
              k \<notin> fst ` set rows)"
proof -
  from reached_good(1) [OF assms(1,2)] have g: "good ds" .
  from run_good [OF g, of "Get k # cs"] obtain ds2 where r: "run (Get k # cs) ds = Some ds2"
    by blast
  then obtain v ds1 where s: "get k ds = Some (v, ds1)" "run cs ds1 = Some ds2"
    by (auto split: option.splits)
  from run_frame [OF r] have f: "db_journal (m_db ds2) = db_journal (m_db ds)"
    "db_data (m_db ds2) = db_data (m_db ds)" by simp_all
  from assms(3) have "fmlookup (m_cache_map ds) k = None" by (simp add: isInCache_def)
  from get_marks_clean [OF s(1) this assms(4)] have "\<not> isModified k ds1" .
  from run_keeps_clean [OF s(2) assms(5) this] have c: "\<not> isModified k ds2" .
  then have "k \<notin> fst ` set (dirty_entries ds2)" by (auto simp: dirty_entries_def)
  then have "\<forall>rows \<in> set (drop (length (db_journal (m_db ds))) (db_journal (DataStore_dtor ds2))).
              k \<notin> fst ` set rows"
    by (simp add: dtor_journal f(1))
  with r f c show ?thesis by blast
qed

theorem reloaded_key_not_written_witness:
  "DataStore_ctor 1 (fresh_db [(''a'', ''x'')]) = Inr (empty_cache 1 (fresh_db [(''a'', ''x'')])) \<and>
   run [] (empty_cache 1 (fresh_db [(''a'', ''x'')])) = Some (empty_cache 1 (fresh_db [(''a'', ''x'')])) \<and>
   \<not> isInCache ''a'' (empty_cache 1 (fresh_db [(''a'', ''x'')])) \<and>
   fst (readFromDB ''a'' [] (m_db (empty_cache 1 (fresh_db [(''a'', ''x'')])))) \<and>
   (\<forall>v. Put ''a'' v \<notin> set [Put ''b'' ''y'']) \<and>
   run [Get ''a''] (empty_cache 1 (fresh_db [(''a'', ''x'')])) =
     Some \<lparr>m_cache_list = [(1, ''a'', ''x'')], m_cache_map = fmap_of_list [(''a'', 1)],
           m_modification_map = fmap_of_list [(''a'', False)],
           m_max_cache_size = 1, m_db = fresh_db [(''a'', ''x'')]\<rparr> \<and>
   run (Get ''a'' # [Put ''b'' ''y'']) (empty_cache 1 (fresh_db [(''a'', ''x'')])) =
     Some \<lparr>m_cache_list = [(2, ''b'', ''y'')], m_cache_map = fmap_of_list [(''b'', 2)],
           m_modification_map = fmap_of_list [(''b'', True)],
           m_max_cache_size = 1, m_db = fresh_db [(''a'', ''x'')]\<rparr> \<and>
   (\<exists>ds2. run (Get ''a'' # [Put ''b'' ''y'']) (empty_cache 1 (fresh_db [(''a'', ''x'')])) = Some ds2 \<and>
      db_journal (m_db ds2) = db_journal (m_db (empty_cache 1 (fresh_db [(''a'', ''x'')]))) \<and>
      db_data (m_db ds2) = db_data (m_db (empty_cache 1 (fresh_db [(''a'', ''x'')]))) \<and>
      \<not> isModified ''a'' ds2 \<and>
      (\<forall>rows \<in> set (drop (length (db_journal (m_db (empty_cache 1 (fresh_db [(''a'', ''x'')])))))
                      (db_journal (DataStore_dtor ds2))).
         ''a'' \<notin> fst ` set rows))"
proof -
  have h1: "DataStore_ctor 1 (fresh_db [(''a'', ''x'')]) =
      Inr (empty_cache 1 (fresh_db [(''a'', ''x'')]))"
    by code_simp
  have h2: "run [] (empty_cache 1 (fresh_db [(''a'', ''x'')])) =
      Some (empty_cache 1 (fresh_db [(''a'', ''x'')]))"
    by simp
  have h3: "\<not> isInCache ''a'' (empty_cache 1 (fresh_db [(''a'', ''x'')]))"
    by code_simp
  have h4: "fst (readFromDB ''a'' [] (m_db (empty_cache 1 (fresh_db [(''a'', ''x'')]))))"
    by code_simp
  have h5: "\<forall>v. Put ''a'' v \<notin> set [Put ''b'' ''y'']" by simp
  have e1: "run [Get ''a''] (empty_cache 1 (fresh_db [(''a'', ''x'')])) =
     Some \<lparr>m_cache_list = [(1, ''a'', ''x'')], m_cache_map = fmap_of_list [(''a'', 1)],
           m_modification_map = fmap_of_list [(''a'', False)],
           m_max_cache_size = 1, m_db = fresh_db [(''a'', ''x'')]\<rparr>"
    by code_simp
  have e2: "run (Get ''a'' # [Put ''b'' ''y'']) (empty_cache 1 (fresh_db [(''a'', ''x'')])) =
     Some \<lparr>m_cache_list = [(2, ''b'', ''y'')], m_cache_map = fmap_of_list [(''b'', 2)],
           m_modification_map = fmap_of_list [(''b'', True)],
           m_max_cache_size = 1, m_db = fresh_db [(''a'', ''x'')]\<rparr>"
    by code_simp
  from reloaded_key_not_written [OF h1 h2 h3 h4 h5] h1 h2 h3 h4 h5 e1 e2
  show ?thesis by blast
qed

subsection \<open>The empty string as the result for a missing key\<close>



subsection \<open>Write-back at eviction\<close>

text \<open>
  Claim C1 wants a dirty key saved once, with its current value, when it is evicted.
  The eviction block of \<open>put\<close> erases the key from \<open>m_modification_map\<close> before it
  asks \<open>isModified\<close>, which therefore answers \<open>false\<close>, and \<open>writeToDB\<close> is never
  reached (lemma \<open>put_db\<close>: no \<open>put\<close> changes the database).  The code at the
  failing input: in a cache of capacity 1 on an empty table, \<open>put("1", "one")\<close> leaves
  \<open>"1"\<close> resident and marked modified; \<open>put("2", "two")\<close> then evicts it, and the
  journal and the table are still empty.  The same happens when the eviction comes from
  a reload: \<open>put("b", "2")\<close> then \<open>get("a")\<close>, with \<open>"a"\<close> in the table, evicts
  \<open>"b"\<close> and writes nothing.
\<close>

theorem dirty_eviction_writes_nothing:
  "run [Put ''1'' ''one''] (empty_cache 1 (fresh_db [])) =
     Some \<lparr>m_cache_list = [(1, ''1'', ''one'')], m_cache_map = fmap_of_list [(''1'', 1)],
           m_modification_map = fmap_of_list [(''1'', True)],
           m_max_cache_size = 1, m_db = fresh_db []\<rparr> \<and>
   isModified ''1'' \<lparr>m_cache_list = [(1, ''1'', ''one'')],
           m_cache_map = fmap_of_list [(''1'', 1)],
           m_modification_map = fmap_of_list [(''1'', True)],
           m_max_cache_size = 1, m_db = fresh_db []\<rparr> \<and>
   put ''2'' ''two'' \<lparr>m_cache_list = [(1, ''1'', ''one'')],
           m_cache_map = fmap_of_list [(''1'', 1)],
           m_modification_map = fmap_of_list [(''1'', True)],
           m_max_cache_size = 1, m_db = fresh_db []\<rparr> =
     Some \<lparr>m_cache_list = [(2, ''2'', ''two'')], m_cache_map = fmap_of_list [(''2'', 2)],
           m_modification_map = fmap_of_list [(''2'', True)],
           m_max_cache_size = 1, m_db = fresh_db []\<rparr> \<and>
   run [Put ''b'' ''2'', Get ''a''] (empty_cache 1 (fresh_db [(''a'', ''1'')])) =
     Some \<lparr>m_cache_list = [(2, ''a'', ''1'')], m_cache_map = fmap_of_list [(''a'', 2)],
           m_modification_map = fmap_of_list [(''a'', False)],
           m_max_cache_size = 1, m_db = fresh_db [(''a'', ''1'')]\<rparr>"
  by code_simp

text \<open>
  Claim C7 wants the latest of several values put for a key written once when the key
  leaves the cache, at eviction or at teardown.  The code at the failing input: in a
  cache of capacity 1 on an empty table, after \<open>put("k", "v1")\<close> and
  \<open>put("k", "v2")\<close> the call \<open>put("j", "w")\<close> evicts \<open>"k"\<close> and nothing is written,
  so that the teardown which follows leaves a table without \<open>"k"\<close>: \<open>"v2"\<close> is lost.
  It is the defect of claim C1.  A teardown with \<open>"k"\<close> still resident does write
  \<open>"v2"\<close>, once, and \<open>"v1"\<close> is written in neither case.
\<close>

theorem coalesced_update_lost_at_eviction:
  "run [Put ''k'' ''v1'', Put ''k'' ''v2''] (empty_cache 1 (fresh_db [])) =
     Some \<lparr>m_cache_list = [(2, ''k'', ''v2'')], m_cache_map = fmap_of_list [(''k'', 2)],
           m_modification_map = fmap_of_list [(''k'', True)],
           m_max_cache_size = 1, m_db = fresh_db []\<rparr> \<and>
   run [Put ''k'' ''v1'', Put ''k'' ''v2'', Put ''j'' ''w''] (empty_cache 1 (fresh_db [])) =
     Some \<lparr>m_cache_list = [(3, ''j'', ''w'')], m_cache_map = fmap_of_list [(''j'', 3)],
           m_modification_map = fmap_of_list [(''j'', True)],
           m_max_cache_size = 1, m_db = fresh_db []\<rparr> \<and>
   DataStore_dtor \<lparr>m_cache_list = [(3, ''j'', ''w'')], m_cache_map = fmap_of_list [(''j'', 3)],
           m_modification_map = fmap_of_list [(''j'', True)],
           m_max_cache_size = 1, m_db = fresh_db []\<rparr> =
     \<lparr>db_data = fmap_of_list [(''j'', ''w'')], db_faults = [],
      db_journal = [[(''j'', ''w'')]], db_foreign = []\<rparr> \<and>
   DataStore_dtor \<lparr>m_cache_list = [(2, ''k'', ''v2'')], m_cache_map = fmap_of_list [(''k'', 2)],
           m_modification_map = fmap_of_list [(''k'', True)],
           m_max_cache_size = 1, m_db = fresh_db []\<rparr> =
     \<lparr>db_data = fmap_of_list [(''k'', ''v2'')], db_faults = [],
      db_journal = [[(''k'', ''v2'')]], db_foreign = []\<rparr>"
  by code_simp

subsection \<open>A miss on a key the table does not have\<close>

text \<open>
  Claim C2 wants \<open>get(k)\<close> to leave the cache as it was when the load of a key that
  is not resident fails or finds no row.  When the load fails the code does so (lemma
  \<open>get_load_failure\<close>: only the database handle moves on).  When the table has no row
  for the key, \<open>readFromDB\<close> steps through zero rows, ends on \<open>SQLITE_DONE\<close> and
  returns \<open>true\<close> with \<open>value\<close> still empty, and \<open>get\<close> puts the pair into the
  cache.  The code at the failing input: in a new cache of capacity 1 on an empty table,
  \<open>get("a")\<close> returns the empty string and leaves \<open>"a"\<close> resident with the empty
  string as its value; after \<open>put("b", "2")\<close> the same \<open>get("a")\<close> also evicts
  \<open>"b"\<close>.
\<close>

theorem get_absent_key_inserts_entry:
  "DataStore_ctor 1 (fresh_db []) = Inr (empty_cache 1 (fresh_db [])) \<and>
   \<not> isInCache ''a'' (empty_cache 1 (fresh_db [])) \<and>
   fmlookup (db_data (m_db (empty_cache 1 (fresh_db [])))) ''a'' = None \<and>
   get ''a'' (empty_cache 1 (fresh_db [])) =
     Some ([], \<lparr>m_cache_list = [(1, ''a'', [])], m_cache_map = fmap_of_list [(''a'', 1)],
                m_modification_map = fmap_of_list [(''a'', False)],
                m_max_cache_size = 1, m_db = fresh_db []\<rparr>) \<and>
   run [Put ''b'' ''2'', Get ''a''] (empty_cache 1 (fresh_db [])) =
     Some \<lparr>m_cache_list = [(2, ''a'', [])], m_cache_map = fmap_of_list [(''a'', 2)],
           m_modification_map = fmap_of_list [(''a'', False)],
           m_max_cache_size = 1, m_db = fresh_db []\<rparr>"
  by code_simp

end
